theory Spec2Isabelle
  imports Main "HOL-Library.Multiset" "HOL-Library.Char_ord" "HOL-Library.List_Lexorder"
begin

section \<open>nfc\_reader.py: the tag sensor\<close>

text \<open>
  \<^verbatim>\<open>SimpleMFRC522.read_no_block()\<close> is the hardware call. It either returns a pair
  \<^verbatim>\<open>(id, text)\<close>, where \<^verbatim>\<open>id\<close> is an integer or \<^verbatim>\<open>None\<close>, or raises an
  exception, of which the code only inspects \<^verbatim>\<open>str(e)\<close>.
\<close>

datatype reader_result = Returned "int option" | Raised string

fun digits_of :: "nat \<Rightarrow> string" where
  "digits_of n =
     (if n < 10 then [''0123456789'' ! n]
      else digits_of (n div 10) @ [''0123456789'' ! (n mod 10)])"

declare digits_of.simps [simp del]

definition str :: "int \<Rightarrow> string" where
  \<comment> \<open>Python's \<^verbatim>\<open>str\<close> on an integer: decimal digits, a minus sign when negative.\<close>
  "str i = (if i < 0 then CHR ''-'' # digits_of (nat (- i)) else digits_of (nat i))"

fun starts_with :: "string \<Rightarrow> string \<Rightarrow> bool" where
  "starts_with [] s = True"
| "starts_with (c # cs) [] = False"
| "starts_with (c # cs) (d # ds) = (c = d \<and> starts_with cs ds)"

fun contains :: "string \<Rightarrow> string \<Rightarrow> bool" where
  \<comment> \<open>\<^verbatim>\<open>sub in s\<close> on Python strings.\<close>
  "contains sub [] = (sub = [])"
| "contains sub (c # cs) = (starts_with sub (c # cs) \<or> contains sub cs)"

text \<open>
  \<^verbatim>\<open>read_tag\<close> returns the tag or \<^verbatim>\<open>None\<close>; the second component is what it
  prints to the console (nothing, or the line \<^verbatim>\<open>NFC read error: ...\<close>).
\<close>

definition read_tag :: "reader_result \<Rightarrow> string option \<times> string option" where
  "read_tag r =
     (case r of
        Returned None \<Rightarrow> (None, None)
      | Returned (Some i) \<Rightarrow> (if i \<noteq> 0 then (Some (str i), None) else (None, None))
      | Raised e \<Rightarrow>
          (if \<not> contains ''AUTH ERROR'' e
           then (None, Some (''NFC read error: '' @ e))
           else (None, None)))"

section \<open>music\_player.py: the player and its run-loop thread\<close>

text \<open>
  The fields of a \<^verbatim>\<open>MusicPlayer\<close> object, as \<^verbatim>\<open>__init__\<close> sets them. The field
  \<^verbatim>\<open>playback_thread\<close> holds the handle of the thread started last; a handle is the
  thread's position in the table of threads below.
\<close>

record MusicPlayer =
  current_playlist :: "string list"
  current_index :: nat
  is_playing :: bool
  is_shuffled :: bool
  playback_thread :: "nat option"

text \<open>
  Where a thread running \<^verbatim>\<open>_play_loop\<close> stands. Each step of a thread reads the shared
  fields at most at one place of the source, so that the main thread can run between any
  two reads:
  \<^item> \<open>Head\<close>: at the test of the outer \<^verbatim>\<open>while\<close>;
  \<^item> \<open>Body\<close>: inside \<^verbatim>\<open>try\<close>, about to read \<^verbatim>\<open>current_song\<close> from the playlist;
  \<^item> \<open>Loading song\<close>: in the calls \<^verbatim>\<open>load(current_song)\<close> and \<^verbatim>\<open>play()\<close>, which
    may block; \<open>song\<close> is the local variable \<^verbatim>\<open>current_song\<close>;
  \<^item> \<open>Busy\<close>: at the test of the inner \<^verbatim>\<open>while\<close> (waiting for the track);
  \<^item> \<open>After\<close>: at \<^verbatim>\<open>if self.is_playing\<close> after the inner loop;
  \<^item> \<open>Advance\<close>: at the assignment to \<^verbatim>\<open>current_index\<close>;
  \<^item> \<open>Pause\<close>: at the inner \<^verbatim>\<open>if self.is_playing\<close> before the pause of 500 ms;
  \<^item> \<open>Handler\<close>: at the start of the \<^verbatim>\<open>except\<close> block;
  \<^item> \<open>Exited\<close>: the function has returned and the thread is no longer alive.
\<close>

datatype pc = Head | Body | Loading string | Busy | After | Advance | Pause | Handler | Exited

text \<open>The player object together with every thread that was ever started on it.\<close>

record world =
  mp :: MusicPlayer
  threads :: "pc list"

definition init_player :: MusicPlayer where
  "init_player =
     \<lparr>current_playlist = [], current_index = 0, is_playing = False,
      is_shuffled = False, playback_thread = None\<rparr>"

definition init_world :: world where
  "init_world = \<lparr>mp = init_player, threads = []\<rparr>"

definition is_alive :: "pc list \<Rightarrow> nat \<Rightarrow> bool" where
  "is_alive ths t = (t < length ths \<and> ths ! t \<noteq> Exited)"


subsection \<open>The run-loop, one step at a time\<close>

text \<open>
  What pygame answers in a step: \<open>Raises\<close> is an exception out of
  \<^verbatim>\<open>load\<close>, \<^verbatim>\<open>play\<close> or \<^verbatim>\<open>get_busy\<close>; \<open>Still_busy\<close> and \<open>Finished\<close> are the
  two answers of \<^verbatim>\<open>get_busy\<close>; \<open>Fine\<close> is a call that returns normally.
\<close>

datatype mixer = Fine | Still_busy | Finished | Raises

text \<open>What a step does besides writing the shared fields.\<close>

datatype effect = Load string | Wait_ms nat | Print_playback_error

definition next_index :: "MusicPlayer \<Rightarrow> nat" where
  \<comment> \<open>\<^verbatim>\<open>(self.current_index + 1) % len(self.current_playlist)\<close>, on a non-empty playlist.\<close>
  "next_index p = (current_index p + 1) mod length (current_playlist p)"

fun thread_step :: "mixer \<Rightarrow> pc \<Rightarrow> MusicPlayer \<Rightarrow> pc \<times> MusicPlayer \<times> effect list" where
  "thread_step ev Head p =
     (if is_playing p \<and> current_playlist p \<noteq> [] then (Body, p, []) else (Exited, p, []))"
| "thread_step ev Body p =
     (if current_index p < length (current_playlist p)
      then (Loading (current_playlist p ! current_index p), p, [])
      else (Handler, p, []))"
| "thread_step ev (Loading current_song) p =
     (if ev = Raises then (Handler, p, [Load current_song])
      else (Busy, p, [Load current_song]))"
| "thread_step ev Busy p =
     (if ev = Raises then (Handler, p, [])
      else if ev = Still_busy \<and> is_playing p then (Busy, p, [Wait_ms 100])
      else (After, p, []))"
| "thread_step ev After p =
     (if is_playing p then (Advance, p, []) else (Head, p, []))"
| "thread_step ev Advance p =
     (if current_playlist p = [] then (Handler, p, [])
      else (Pause, p\<lparr>current_index := next_index p\<rparr>, []))"
| "thread_step ev Pause p =
     (if is_playing p then (Head, p, [Wait_ms 500]) else (Head, p, []))"
| "thread_step ev Handler p =
     (if is_playing p \<and> current_playlist p \<noteq> []
      then (Head, p\<lparr>current_index := next_index p\<rparr>, [Print_playback_error, Wait_ms 1000])
      else (Exited, p, [Print_playback_error]))"
| "thread_step ev Exited p = (Exited, p, [])"

text \<open>
  A thread left alone with the player for a list of answers of pygame; the effects
  are collected in order.
\<close>

fun thread_steps :: "mixer list \<Rightarrow> pc \<Rightarrow> MusicPlayer \<Rightarrow> pc \<times> MusicPlayer \<times> effect list" where
  "thread_steps [] c p = (c, p, [])"
| "thread_steps (ev # evs) c p =
     (case thread_step ev c p of
        (c', p', out) \<Rightarrow>
          (case thread_steps evs c' p' of (c'', p'', out') \<Rightarrow> (c'', p'', out @ out')))"

definition thread_run :: "nat \<Rightarrow> mixer \<Rightarrow> world \<Rightarrow> world" where
  \<comment> \<open>Thread \<open>t\<close> of the table takes one step on the shared player.\<close>
  "thread_run t ev w =
     (if t < length (threads w)
      then (case thread_step ev (threads w ! t) (mp w) of
              (c', p', out) \<Rightarrow> \<lparr>mp = p', threads = (threads w)[t := c']\<rparr>)
      else w)"

subsection \<open>stop\<close>

text \<open>
  \<^verbatim>\<open>self.playback_thread.join(timeout=2)\<close> returns when the thread has exited or
  when two seconds have passed, whichever is first. Which of the two happens is decided
  by how long the thread's pending pygame call takes; it is the parameter \<open>exits\<close>.
\<close>

definition stop :: "bool \<Rightarrow> world \<Rightarrow> world" where
  "stop exits w =
     (let p = (mp w)\<lparr>is_playing := False, is_shuffled := False\<rparr>;
          ths = (case playback_thread p of
                   None \<Rightarrow> threads w
                 | Some t \<Rightarrow>
                     if is_alive (threads w) t \<and> exits then (threads w)[t := Exited]
                     else threads w)
      in \<lparr>mp = p\<lparr>current_playlist := [], current_index := 0\<rparr>, threads = ths\<rparr>)"

subsection \<open>play\_album\<close>

text \<open>
  What the main thread finds outside the program during one call: the answer of the
  reader, of \<^verbatim>\<open>os.path.exists\<close> and \<^verbatim>\<open>glob.glob\<close>, the numbers the random generator
  draws, and whether the join in \<^verbatim>\<open>stop\<close> sees the thread exit.
\<close>

record env =
  reading :: reader_result
  os_path_exists :: "string \<Rightarrow> bool"
  glob_glob :: "string \<Rightarrow> string list"
  random_draw :: "nat \<Rightarrow> nat"
  joined :: bool

definition path_join :: "string \<Rightarrow> string \<Rightarrow> string" where
  \<comment> \<open>\<^verbatim>\<open>os.path.join\<close> of two components on POSIX.\<close>
  "path_join a b =
     (if starts_with ''/'' b then b
      else if a = [] \<or> last a = CHR ''/'' then a @ b
      else a @ ''/'' @ b)"

definition randbelow :: "(nat \<Rightarrow> nat) \<Rightarrow> nat \<Rightarrow> nat" where
  \<comment> \<open>A number below \<open>n\<close>, from the draw made for \<open>n\<close>.\<close>
  "randbelow draw n = draw n mod n"

text \<open>
  \<^verbatim>\<open>random.shuffle(x)\<close> of the standard library:
  \<^verbatim>\<open>for i in reversed(range(1, len(x))): j = randbelow(i + 1); x[i], x[j] = x[j], x[i]\<close>
\<close>

fun shuffle_loop :: "(nat \<Rightarrow> nat) \<Rightarrow> nat \<Rightarrow> 'a list \<Rightarrow> 'a list" where
  "shuffle_loop draw 0 x = x"
| "shuffle_loop draw (Suc k) x =
     (let i = Suc k; j = randbelow draw (i + 1)
      in shuffle_loop draw k (x[i := x ! j, j := x ! i]))"

definition shuffle :: "(nat \<Rightarrow> nat) \<Rightarrow> 'a list \<Rightarrow> 'a list" where
  "shuffle draw x = shuffle_loop draw (length x - 1) x"

definition sorted_mp3_files :: "env \<Rightarrow> string \<Rightarrow> string list" where
  \<comment> \<open>\<^verbatim>\<open>glob.glob(os.path.join(album_path, "*.mp3"))\<close>, then \<^verbatim>\<open>sort()\<close>.\<close>
  "sorted_mp3_files e album_path = sort (glob_glob e (path_join album_path ''*.mp3''))"

definition start_thread :: "world \<Rightarrow> world" where
  \<comment> \<open>\<^verbatim>\<open>threading.Thread(target=self._play_loop).start()\<close>, the handle stored in the player.\<close>
  "start_thread w =
     \<lparr>mp = (mp w)\<lparr>playback_thread := Some (length (threads w))\<rparr>,
      threads = threads w @ [Head]\<rparr>"

definition play_album :: "env \<Rightarrow> string \<Rightarrow> string \<Rightarrow> bool \<Rightarrow> world \<Rightarrow> bool \<times> world" where
  "play_album e mount album_name shuffle_flag w =
     (let album_path = path_join mount album_name
      in if \<not> os_path_exists e album_path then (False, w)
         else let mp3_files = sorted_mp3_files e album_path
              in if mp3_files = [] then (False, w)
                 else let w1 = stop (joined e) w;
                          files = (if shuffle_flag then shuffle (random_draw e) mp3_files
                                   else mp3_files);
                          p = (mp w1)\<lparr>is_shuffled := shuffle_flag, current_playlist := files,
                                      current_index := 0, is_playing := True\<rparr>
                      in (True, start_thread (w1\<lparr>mp := p\<rparr>)))"

section \<open>main.py: the controller\<close>

text \<open>
  A value of \<^verbatim>\<open>nfc_mappings\<close> is a string (the old format) or an object whose keys
  \<^verbatim>\<open>album\<close> and \<^verbatim>\<open>shuffle\<close> may each be missing.
\<close>

datatype mapping = Legacy string | Full "string option" "bool option"

record config =
  usb_mount_path :: string
  nfc_mappings :: "string \<rightharpoonup> mapping"

definition get_album_info :: "config \<Rightarrow> string \<Rightarrow> string option \<times> bool" where
  "get_album_info cfg nfc_id =
     (case nfc_mappings cfg nfc_id of
        None \<Rightarrow> (None, False)
      | Some (Legacy a) \<Rightarrow> (if a = [] then (None, False) else (Some a, False))
      | Some (Full a sh) \<Rightarrow>
          (if a = None \<and> sh = None then (None, False)
           else (a, (case sh of None \<Rightarrow> False | Some b \<Rightarrow> b))))"

text \<open>
  The controller object. \<open>logger\<close> is the list of calls of
  \<^verbatim>\<open>ActivityLogger.log_activity(nfc_id, album, action)\<close>, oldest first.
\<close>

record NFCMusicController =
  config :: config
  music_player :: world
  logger :: "(string \<times> string \<times> string) list"
  current_nfc_id :: "string option"
  ctl_is_playing :: bool

definition init_controller :: "config \<Rightarrow> NFCMusicController" where
  \<comment> \<open>\<^verbatim>\<open>__init__\<close>; constructing the logger logs the start of the system.\<close>
  "init_controller cfg =
     \<lparr>config = cfg, music_player = init_world,
      logger = [(''SYSTEM'', ''Music Player'', ''started'')],
      current_nfc_id = None, ctl_is_playing = False\<rparr>"

definition truthy :: "string option \<Rightarrow> bool" where
  \<comment> \<open>Python's truth value of a string or \<^verbatim>\<open>None\<close>.\<close>
  "truthy x = (case x of None \<Rightarrow> False | Some s \<Rightarrow> s \<noteq> [])"

definition log_activity ::
  "string \<Rightarrow> string \<Rightarrow> string \<Rightarrow> NFCMusicController \<Rightarrow> NFCMusicController" where
  "log_activity nfc_id album action c = c\<lparr>logger := logger c @ [(nfc_id, album, action)]\<rparr>"

definition handle_new_tag :: "env \<Rightarrow> string \<Rightarrow> NFCMusicController \<Rightarrow> NFCMusicController" where
  "handle_new_tag e nfc_id c =
     (case get_album_info (config c) nfc_id of
        (album, shuffle_flag) \<Rightarrow>
          (case (if truthy album then album else None) of
             Some a \<Rightarrow>
               (case play_album e (usb_mount_path (config c)) a shuffle_flag (music_player c) of
                  (started, w) \<Rightarrow>
                    (if started
                     then log_activity nfc_id a
                            (if shuffle_flag then ''started_shuffled'' else ''started'')
                            (c\<lparr>music_player := w, current_nfc_id := Some nfc_id,
                               ctl_is_playing := True\<rparr>)
                     else c\<lparr>music_player := w\<rparr>))
           | None \<Rightarrow> log_activity nfc_id ''Unknown'' ''unknown_tag'' c))"

text \<open>\<^verbatim>\<open>run\<close> calls \<^verbatim>\<open>handle_tag_removed\<close> only with a tag in \<^verbatim>\<open>current_nfc_id\<close>.\<close>

definition handle_tag_removed :: "env \<Rightarrow> NFCMusicController \<Rightarrow> NFCMusicController" where
  "handle_tag_removed e c =
     (case current_nfc_id c of
        None \<Rightarrow> c
      | Some cur \<Rightarrow>
          (case get_album_info (config c) cur of
             (album, shuffle_flag) \<Rightarrow>
               (let album' = (case (if truthy album then album else None) of
                                Some a \<Rightarrow> a | None \<Rightarrow> ''Unknown'');
                    c1 = c\<lparr>music_player := stop (joined e) (music_player c)\<rparr>;
                    c2 = log_activity cur album'
                           (if shuffle_flag then ''stopped_shuffled'' else ''stopped'') c1
                in c2\<lparr>current_nfc_id := None, ctl_is_playing := False\<rparr>)))"

definition tick :: "env \<Rightarrow> NFCMusicController \<Rightarrow> NFCMusicController" where
  \<comment> \<open>The body of \<^verbatim>\<open>while True\<close> in \<^verbatim>\<open>run\<close>.\<close>
  "tick e c =
     (let nfc_id = fst (read_tag (reading e))
      in case (if truthy nfc_id \<and> nfc_id \<noteq> current_nfc_id c then nfc_id else None) of
           Some t \<Rightarrow> handle_new_tag e t c
         | None \<Rightarrow>
             (if \<not> truthy nfc_id \<and> truthy (current_nfc_id c)
              then handle_tag_removed e c
              else c))"

text \<open>
  A run of the whole program: the main thread's ticks, and between them steps of the
  run-loop threads, in any order.
\<close>

datatype action = Tick env | Thread nat mixer

fun act :: "action \<Rightarrow> NFCMusicController \<Rightarrow> NFCMusicController" where
  "act (Tick e) c = tick e c"
| "act (Thread t ev) c = c\<lparr>music_player := thread_run t ev (music_player c)\<rparr>"

fun exec :: "action list \<Rightarrow> NFCMusicController \<Rightarrow> NFCMusicController" where
  "exec [] c = c"
| "exec (a # as) c = exec as (act a c)"

definition thread_runs :: "(nat \<times> mixer) list \<Rightarrow> world \<Rightarrow> world" where
  \<comment> \<open>Steps of threads while the main thread does nothing.\<close>
  "thread_runs ts w = foldl (\<lambda>w' (t, ev). thread_run t ev w') w ts"

definition alive_threads :: "world \<Rightarrow> nat list" where
  "alive_threads w = filter (is_alive (threads w)) [0..<length (threads w)]"

fun join_completes :: "action \<Rightarrow> bool" where
  \<comment> \<open>The join of this action, if it makes one, sees the thread exit.\<close>
  "join_completes (Tick e) = joined e"
| "join_completes (Thread t ev) = True"

definition natural_completion :: "mixer list" where
  \<comment> \<open>pygame's answers from the end of one track to the wait for the next: \<^verbatim>\<open>get_busy\<close>
      is false, and the \<^verbatim>\<open>load\<close> and \<^verbatim>\<open>play\<close> of the next track return.\<close>
  "natural_completion = [Finished, Fine, Fine, Fine, Fine, Fine, Fine]"

section \<open>A concrete installation\<close>

text \<open>
  Tag 111 is mapped to the album Jazz (three tracks, not shuffled), tag 333 to the album
  Pop (three tracks, shuffled), tag 222 to an album whose directory is missing, and tag
  999 to nothing.
\<close>

definition usb_config :: config where
  "usb_config =
     \<lparr>usb_mount_path = ''/media/usb'',
      nfc_mappings = [''111'' \<mapsto> Full (Some ''Jazz'') (Some False),
                      ''222'' \<mapsto> Legacy ''Blues'',
                      ''333'' \<mapsto> Full (Some ''Pop'') (Some True)]\<rparr>"

definition usb_exists :: "string \<Rightarrow> bool" where
  "usb_exists path = (path = ''/media/usb/Jazz'' \<or> path = ''/media/usb/Pop'')"

definition usb_glob :: "string \<Rightarrow> string list" where
  "usb_glob pattern =
     (if pattern = ''/media/usb/Jazz/*.mp3''
      then [''/media/usb/Jazz/b.mp3'', ''/media/usb/Jazz/a.mp3'', ''/media/usb/Jazz/c.mp3'']
      else if pattern = ''/media/usb/Pop/*.mp3''
      then [''/media/usb/Pop/2.mp3'', ''/media/usb/Pop/1.mp3'', ''/media/usb/Pop/3.mp3'']
      else [])"

definition usb_draw :: "nat \<Rightarrow> nat" where
  "usb_draw n = 0"

definition usb_env :: "reader_result \<Rightarrow> bool \<Rightarrow> env" where
  "usb_env r j =
     \<lparr>reading = r, os_path_exists = usb_exists, glob_glob = usb_glob,
      random_draw = usb_draw, joined = j\<rparr>"

definition calm_run :: "action list" where
  \<comment> \<open>Tag 111, then tag 333 while the first album plays; the join sees the thread exit.\<close>
  "calm_run =
     [Tick (usb_env (Returned (Some 111)) True), Thread 0 Fine, Thread 0 Fine,
      Tick (usb_env (Returned (Some 333)) True)]"

definition timeout_run :: "action list" where
  \<comment> \<open>The same, but the first thread is held in \<^verbatim>\<open>load\<close> for longer than the join
      waits; then both threads go on.\<close>
  "timeout_run =
     [Tick (usb_env (Returned (Some 111)) True), Thread 0 Fine, Thread 0 Fine,
      Tick (usb_env (Returned (Some 333)) False),
      Thread 0 Fine, Thread 1 Fine, Thread 1 Fine, Thread 1 Fine]"

definition jazz_playing :: MusicPlayer where
  \<comment> \<open>The player with the album Jazz started, at its last track.\<close>
  "jazz_playing =
     \<lparr>current_playlist = [''/media/usb/Jazz/a.mp3'', ''/media/usb/Jazz/b.mp3'',
                           ''/media/usb/Jazz/c.mp3''],
      current_index = 2, is_playing = True, is_shuffled = False,
      playback_thread = Some 0\<rparr>"

section \<open>Properties\<close>

subsection \<open>Unknown tags\<close>

lemma digits_of_nonempty: "digits_of n \<noteq> []"
  by (subst digits_of.simps) simp

lemma str_nonempty: "str i \<noteq> []"
  by (simp add: str_def digits_of_nonempty)

lemma read_tag_nonempty: "fst (read_tag r) = Some t \<Longrightarrow> t \<noteq> []"
  by (auto simp: read_tag_def str_nonempty split: reader_result.splits option.splits if_splits)

lemma str_999: "str 999 = ''999''"
  by (simp add: str_def digits_of.simps)

lemma str_111: "str 111 = ''111''"
  by (simp add: str_def digits_of.simps)

lemma str_222: "str 222 = ''222''"
  by (simp add: str_def digits_of.simps)

lemma str_333: "str 333 = ''333''"
  by (simp add: str_def digits_of.simps)

text \<open>
  C3: a tick that reads a tag with no entry in \<^verbatim>\<open>nfc_mappings\<close>, different from the
  tag in \<^verbatim>\<open>current_nfc_id\<close>, leaves the player, its threads and every field of the
  controller as they were, and appends exactly one event, \<^verbatim>\<open>unknown_tag\<close>, to the
  activity log.
\<close>

theorem unknown_tag_tick:
  assumes "nfc_mappings (config c) t = None"
      and "fst (read_tag (reading e)) = Some t"
      and "current_nfc_id c \<noteq> Some t"
  shows "tick e c = c\<lparr>logger := logger c @ [(t, ''Unknown'', ''unknown_tag'')]\<rparr>"
  using assms read_tag_nonempty [OF assms(2)]
  by (simp add: tick_def Let_def truthy_def handle_new_tag_def get_album_info_def
      log_activity_def)

theorem unknown_tag_tick_witness:
  "nfc_mappings (config (init_controller usb_config)) ''999'' = None
   \<and> fst (read_tag (reading (usb_env (Returned (Some 999)) True))) = Some ''999''
   \<and> current_nfc_id (init_controller usb_config) \<noteq> Some ''999''
   \<and> tick (usb_env (Returned (Some 999)) True) (init_controller usb_config)
       = (init_controller usb_config)
           \<lparr>logger := [(''SYSTEM'', ''Music Player'', ''started''),
                        (''999'', ''Unknown'', ''unknown_tag'')]\<rparr>"
proof -
  have h1: "nfc_mappings (config (init_controller usb_config)) ''999'' = None"
    by (simp add: init_controller_def usb_config_def)
  have h2: "fst (read_tag (reading (usb_env (Returned (Some 999)) True))) = Some ''999''"
    by (simp add: usb_env_def read_tag_def str_999)
  have h3: "current_nfc_id (init_controller usb_config) \<noteq> Some ''999''"
    by (simp add: init_controller_def)
  have "logger (init_controller usb_config) = [(''SYSTEM'', ''Music Player'', ''started'')]"
    by (simp add: init_controller_def)
  with unknown_tag_tick [OF h1 h2 h3] h1 h2 h3 show ?thesis by simp
qed

subsection \<open>Failing starts, and stop\<close>

text \<open>
  C7: when the album's directory does not exist, or the pattern \<^verbatim>\<open>*.mp3\<close> matches
  nothing in it, \<^verbatim>\<open>play_album\<close> returns \<^verbatim>\<open>False\<close> and the player and its threads
  are exactly as before the call (both returns precede the call of \<^verbatim>\<open>stop\<close>).
\<close>

theorem play_album_fails_unchanged:
  assumes "\<not> os_path_exists e (path_join mount album_name)
         \<or> glob_glob e (path_join (path_join mount album_name) ''*.mp3'') = []"
  shows "play_album e mount album_name shuffle_flag w = (False, w)"
  using assms by (auto simp: play_album_def sorted_mp3_files_def Let_def)

theorem play_album_fails_unchanged_witness:
  "\<not> os_path_exists (usb_env (Returned (Some 222)) True) (path_join ''/media/usb'' ''Blues'')
   \<and> play_album (usb_env (Returned (Some 222)) True) ''/media/usb'' ''Blues'' False
        \<lparr>mp = jazz_playing, threads = [Busy]\<rparr>
       = (False, \<lparr>mp = jazz_playing, threads = [Busy]\<rparr>)"
proof -
  have h: "\<not> os_path_exists (usb_env (Returned (Some 222)) True)
             (path_join ''/media/usb'' ''Blues'')"
    by (simp add: usb_env_def usb_exists_def path_join_def)
  then have "\<not> os_path_exists (usb_env (Returned (Some 222)) True)
               (path_join ''/media/usb'' ''Blues'')
           \<or> glob_glob (usb_env (Returned (Some 222)) True)
               (path_join (path_join ''/media/usb'' ''Blues'') ''*.mp3'') = []"
    by (rule disjI1)
  from play_album_fails_unchanged [OF this] h show ?thesis by simp
qed

text \<open>
  C10: \<^verbatim>\<open>stop\<close> is defined on every state and always leaves the player with
  \<^verbatim>\<open>is_playing\<close> and \<^verbatim>\<open>is_shuffled\<close> false, an empty playlist and position 0 (the thread
  handle is kept); a second \<^verbatim>\<open>stop\<close> leaves the player as the first did, and leaves
  the threads as well as they were once the first has seen its thread exit.
\<close>

theorem stop_idempotent:
  "mp (stop j w) =
     \<lparr>current_playlist = [], current_index = 0, is_playing = False, is_shuffled = False,
      playback_thread = playback_thread (mp w)\<rparr>
   \<and> mp (stop j' (stop j w)) = mp (stop j w)
   \<and> stop j (stop j w) = stop j w
   \<and> stop j' (stop True w) = stop True w"
  by (auto simp: stop_def Let_def is_alive_def split: option.splits)

subsection \<open>Which tag the controller remembers\<close>

lemma jazz_sorted:
  "sorted_mp3_files (usb_env r j) (path_join ''/media/usb'' ''Jazz'')
     = [''/media/usb/Jazz/a.mp3'', ''/media/usb/Jazz/b.mp3'', ''/media/usb/Jazz/c.mp3'']"
  by (simp add: sorted_mp3_files_def usb_env_def usb_glob_def path_join_def)

lemma jazz_exists: "os_path_exists (usb_env r j) (path_join ''/media/usb'' ''Jazz'')"
  by (simp add: usb_env_def usb_exists_def path_join_def)

lemma pop_sorted:
  "sorted_mp3_files (usb_env r j) (path_join ''/media/usb'' ''Pop'')
     = [''/media/usb/Pop/1.mp3'', ''/media/usb/Pop/2.mp3'', ''/media/usb/Pop/3.mp3'']"
  by (simp add: sorted_mp3_files_def usb_env_def usb_glob_def path_join_def)

lemma pop_exists: "os_path_exists (usb_env r j) (path_join ''/media/usb'' ''Pop'')"
  by (simp add: usb_env_def usb_exists_def path_join_def)

lemma play_jazz:
  "play_album (usb_env r j) ''/media/usb'' ''Jazz'' False init_world
     = (True, \<lparr>mp = jazz_playing\<lparr>current_index := 0\<rparr>, threads = [Head]\<rparr>)"
  by (simp add: play_album_def Let_def jazz_sorted jazz_exists stop_def init_world_def
      init_player_def start_thread_def jazz_playing_def)

text \<open>
  C2, as the code has it: on a tick that reads a tag different from
  \<^verbatim>\<open>current_nfc_id\<close>, the controller sets \<^verbatim>\<open>current_nfc_id\<close> to the new tag exactly
  when the tag is mapped to a non-empty album name and \<^verbatim>\<open>play_album\<close> returns
  \<^verbatim>\<open>True\<close>; otherwise \<^verbatim>\<open>current_nfc_id\<close> keeps its value.
\<close>

theorem new_tag_updates_only_on_start:
  assumes "fst (read_tag (reading e)) = Some t"
      and "current_nfc_id c \<noteq> Some t"
  shows "current_nfc_id (tick e c) =
     (case get_album_info (config c) t of
        (Some a, sh) \<Rightarrow>
          if a \<noteq> [] \<and> fst (play_album e (usb_mount_path (config c)) a sh (music_player c))
          then Some t else current_nfc_id c
      | (None, sh) \<Rightarrow> current_nfc_id c)"
  using assms read_tag_nonempty [OF assms(1)]
  by (auto simp: tick_def Let_def truthy_def handle_new_tag_def log_activity_def
      split: prod.splits option.splits)

theorem new_tag_updates_only_on_start_witness:
  "fst (read_tag (reading (usb_env (Returned (Some 111)) True))) = Some ''111''
   \<and> current_nfc_id (init_controller usb_config) \<noteq> Some ''111''
   \<and> current_nfc_id (tick (usb_env (Returned (Some 111)) True) (init_controller usb_config))
       = Some ''111''"
proof -
  have h1: "fst (read_tag (reading (usb_env (Returned (Some 111)) True))) = Some ''111''"
    by (simp add: usb_env_def read_tag_def str_111)
  have h2: "current_nfc_id (init_controller usb_config) \<noteq> Some ''111''"
    by (simp add: init_controller_def)
  have g: "get_album_info (config (init_controller usb_config)) ''111'' = (Some ''Jazz'', False)"
    by (simp add: get_album_info_def init_controller_def usb_config_def)
  have m: "usb_mount_path (config (init_controller usb_config)) = ''/media/usb''"
          "music_player (init_controller usb_config) = init_world"
    by (simp_all add: init_controller_def usb_config_def)
  from new_tag_updates_only_on_start [OF h1 h2] h1 h2 show ?thesis
    by (simp add: g m play_jazz)
qed

text \<open>
  C2 as stated fails: tag 999 has no mapping and tag 222 is mapped to an album whose
  directory is missing; after the tick that reads either, \<^verbatim>\<open>current_nfc_id\<close> is still
  \<^verbatim>\<open>None\<close>.
\<close>

theorem tag_not_recorded_without_start:
  "fst (read_tag (reading (usb_env (Returned (Some 999)) True))) = Some ''999''
   \<and> current_nfc_id (init_controller usb_config) \<noteq> Some ''999''
   \<and> current_nfc_id (tick (usb_env (Returned (Some 999)) True) (init_controller usb_config))
       = None
   \<and> fst (read_tag (reading (usb_env (Returned (Some 222)) True))) = Some ''222''
   \<and> current_nfc_id (init_controller usb_config) \<noteq> Some ''222''
   \<and> current_nfc_id (tick (usb_env (Returned (Some 222)) True) (init_controller usb_config))
       = None"
  by (simp add: tick_def Let_def read_tag_def str_999 str_222 usb_env_def truthy_def
      init_controller_def handle_new_tag_def get_album_info_def usb_config_def
      log_activity_def play_album_def usb_exists_def path_join_def)

subsection \<open>Faults of the reader\<close>

text \<open>
  C9, as the code has it: when the hardware read raises, \<^verbatim>\<open>read_tag\<close> returns no tag;
  an exception whose message contains \<^verbatim>\<open>AUTH ERROR\<close> is swallowed and nothing is
  printed, any other exception is reported by the line \<^verbatim>\<open>NFC read error: ...\<close>.
\<close>

theorem read_tag_faults:
  "read_tag (Raised msg) =
     (if contains ''AUTH ERROR'' msg then (None, None)
      else (None, Some (''NFC read error: '' @ msg)))"
  by (simp add: read_tag_def)

theorem read_tag_faults_witness:
  "read_tag (Raised ''timeout'') = (None, Some ''NFC read error: timeout'')"
  using read_tag_faults [of "''timeout''"] by simp

text \<open>
  C9 as stated fails: an authentication error is swallowed without being logged.
\<close>

theorem read_tag_auth_error_not_logged:
  "contains ''AUTH ERROR'' ''AUTH ERROR'' \<and> read_tag (Raised ''AUTH ERROR'') = (None, None)"
  by (simp add: read_tag_def)

subsection \<open>Shuffling\<close>

lemma shuffle_loop_mset:
  "k < length x \<Longrightarrow> mset (shuffle_loop draw k x) = mset x"
proof (induction k arbitrary: x)
  case 0
  then show ?case by simp
next
  case (Suc k)
  have "randbelow draw (Suc k + 1) < Suc k + 1"
    unfolding randbelow_def by (rule mod_less_divisor) simp
  with Suc.prems have j: "randbelow draw (Suc k + 1) < length x"
    by linarith
  from Suc.prems j have "mset (x[Suc k := x ! randbelow draw (Suc k + 1),
                                 randbelow draw (Suc k + 1) := x ! Suc k]) = mset x"
    by (simp add: mset_swap)
  moreover from Suc.prems have "k < length (x[Suc k := x ! randbelow draw (Suc k + 1),
                                 randbelow draw (Suc k + 1) := x ! Suc k])"
    by simp
  ultimately show ?case
    using Suc.IH by (simp add: Let_def)
qed

lemma shuffle_mset: "mset (shuffle draw x) = mset x"
  by (cases x) (simp_all add: shuffle_def shuffle_loop_mset)

text \<open>
  C4: when \<^verbatim>\<open>play_album\<close> is called with \<^verbatim>\<open>shuffle=True\<close> on an album with at least one
  track, it succeeds and the playlist it installs is a permutation of the sorted list of
  the album's tracks: the same multiset, hence the same length and the same set of paths,
  whatever numbers the random generator draws.
\<close>

theorem shuffle_preserves_tracks:
  assumes "os_path_exists e (path_join mount album_name)"
      and "sorted_mp3_files e (path_join mount album_name) \<noteq> []"
  shows "fst (play_album e mount album_name True w)
       \<and> mset (current_playlist (mp (snd (play_album e mount album_name True w))))
           = mset (sorted_mp3_files e (path_join mount album_name))
       \<and> length (current_playlist (mp (snd (play_album e mount album_name True w))))
           = length (sorted_mp3_files e (path_join mount album_name))
       \<and> set (current_playlist (mp (snd (play_album e mount album_name True w))))
           = set (sorted_mp3_files e (path_join mount album_name))"
proof -
  let ?files = "sorted_mp3_files e (path_join mount album_name)"
  have pl: "current_playlist (mp (snd (play_album e mount album_name True w)))
              = shuffle (random_draw e) ?files"
    using assms by (simp add: play_album_def Let_def start_thread_def)
  have ok: "fst (play_album e mount album_name True w)"
    using assms by (simp add: play_album_def Let_def)
  have m: "mset (shuffle (random_draw e) ?files) = mset ?files"
    by (rule shuffle_mset)
  from m have "length (shuffle (random_draw e) ?files) = length ?files"
    by (rule mset_eq_length)
  moreover from m have "set (shuffle (random_draw e) ?files) = set ?files"
    by (rule mset_eq_setD)
  ultimately show ?thesis using pl ok m by simp
qed

theorem shuffle_preserves_tracks_witness:
  "os_path_exists (usb_env (Returned (Some 333)) True) (path_join ''/media/usb'' ''Pop'')
   \<and> sorted_mp3_files (usb_env (Returned (Some 333)) True) (path_join ''/media/usb'' ''Pop'')
       \<noteq> []
   \<and> fst (play_album (usb_env (Returned (Some 333)) True) ''/media/usb'' ''Pop'' True init_world)
   \<and> mset (current_playlist (mp (snd (play_album (usb_env (Returned (Some 333)) True)
             ''/media/usb'' ''Pop'' True init_world))))
       = mset [''/media/usb/Pop/1.mp3'', ''/media/usb/Pop/2.mp3'', ''/media/usb/Pop/3.mp3'']"
proof -
  have h1: "os_path_exists (usb_env (Returned (Some 333)) True)
              (path_join ''/media/usb'' ''Pop'')"
    by (rule pop_exists)
  have h2: "sorted_mp3_files (usb_env (Returned (Some 333)) True)
              (path_join ''/media/usb'' ''Pop'') \<noteq> []"
    by (simp add: pop_sorted)
  from shuffle_preserves_tracks [OF h1 h2, of init_world] h1 h2 show ?thesis
    by (simp add: pop_sorted)
qed

subsection \<open>The run-loop\<close>

lemma thread_steps_append:
  "thread_steps (xs @ ys) c p =
     (case thread_steps xs c p of
        (c', p', out) \<Rightarrow>
          (case thread_steps ys c' p' of (c'', p'', out') \<Rightarrow> (c'', p'', out @ out')))"
  by (induction xs arbitrary: c p) (auto split: prod.splits)

lemma one_completion:
  assumes "is_playing p" and "current_playlist p \<noteq> []"
  shows "thread_steps natural_completion Busy p =
     (Busy, p\<lparr>current_index := next_index p\<rparr>,
      [Wait_ms 500, Load (current_playlist p ! next_index p)])"
  using assms by (simp add: natural_completion_def next_index_def)

lemma completions:
  assumes "is_playing p" and "current_index p < length (current_playlist p)"
  shows "fst (thread_steps (concat (replicate k natural_completion)) Busy p) = Busy
       \<and> fst (snd (thread_steps (concat (replicate k natural_completion)) Busy p))
           = p\<lparr>current_index := (current_index p + k) mod length (current_playlist p)\<rparr>"
  using assms
proof (induction k arbitrary: p)
  case 0
  then show ?case by simp
next
  case (Suc k)
  let ?q = "p\<lparr>current_index := next_index p\<rparr>"
  from Suc.prems have ne: "current_playlist p \<noteq> []" by auto
  have q: "is_playing ?q" "current_index ?q < length (current_playlist ?q)"
    using Suc.prems ne by (simp_all add: next_index_def)
  have step: "thread_steps (concat (replicate (Suc k) natural_completion)) Busy p
      = (case thread_steps (concat (replicate k natural_completion)) Busy ?q of
           (c'', p'', out') \<Rightarrow>
             (c'', p'', [Wait_ms 500, Load (current_playlist p ! next_index p)] @ out'))"
    by (simp add: thread_steps_append one_completion [OF Suc.prems(1) ne]
        del: thread_steps.simps)
  have idx: "(next_index p + k) mod length (current_playlist p)
           = (current_index p + Suc k) mod length (current_playlist p)"
    unfolding next_index_def by (metis Suc_eq_plus1 add_Suc_shift mod_add_left_eq)
  from Suc.IH [OF q] step idx show ?case
    by (simp add: split_beta)
qed

text \<open>
  C5: in an active session whose playlist has \<open>n\<close> tracks and whose position is
  \<open>i < n\<close>, when the track ends by itself (\<^verbatim>\<open>get_busy\<close> turns false while
  \<^verbatim>\<open>is_playing\<close> holds) the run-loop sets the position to \<open>(i + 1) mod n\<close>, pauses 500 ms
  and re-enters the loop body; from the last track the position returns to 0; and after
  any number \<open>k\<close> of such completions the thread is still waiting on a track, at position
  \<open>(i + k) mod n\<close>: left alone, the album loops for ever.
\<close>

theorem track_advance_wraps:
  assumes "is_playing p" and "current_index p < length (current_playlist p)"
  shows "thread_steps [Finished, e1, e2, e3, e4] Busy p =
           (Body,
            p\<lparr>current_index := (current_index p + 1) mod length (current_playlist p)\<rparr>,
            [Wait_ms 500])
       \<and> (current_index p = length (current_playlist p) - 1 \<longrightarrow>
            (current_index p + 1) mod length (current_playlist p) = 0)
       \<and> (\<forall>k. fst (thread_steps (concat (replicate k natural_completion)) Busy p) = Busy
             \<and> fst (snd (thread_steps (concat (replicate k natural_completion)) Busy p))
                 = p\<lparr>current_index :=
                       (current_index p + k) mod length (current_playlist p)\<rparr>)"
proof -
  have one: "thread_steps [Finished, e1, e2, e3, e4] Busy p =
           (Body,
            p\<lparr>current_index := (current_index p + 1) mod length (current_playlist p)\<rparr>,
            [Wait_ms 500])"
    using assms by (auto simp: next_index_def)
  have wrap: "current_index p = length (current_playlist p) - 1 \<longrightarrow>
            (current_index p + 1) mod length (current_playlist p) = 0"
  proof
    assume last: "current_index p = length (current_playlist p) - 1"
    with assms(2) have "current_index p + 1 = length (current_playlist p)"
      by linarith
    then show "(current_index p + 1) mod length (current_playlist p) = 0"
      by simp
  qed
  from one wrap completions [OF assms] show ?thesis by blast
qed

theorem track_advance_wraps_witness:
  "is_playing jazz_playing
   \<and> current_index jazz_playing < length (current_playlist jazz_playing)
   \<and> thread_steps [Finished, Fine, Fine, Fine, Fine] Busy jazz_playing
       = (Body, jazz_playing\<lparr>current_index := 0\<rparr>, [Wait_ms 500])"
proof -
  have h1: "is_playing jazz_playing"
    by (simp add: jazz_playing_def)
  have h2: "current_index jazz_playing < length (current_playlist jazz_playing)"
    by (simp add: jazz_playing_def)
  have "(current_index jazz_playing + 1) mod length (current_playlist jazz_playing) = 0"
    by (simp add: jazz_playing_def)
  with track_advance_wraps [OF h1 h2, of Fine Fine Fine Fine] h1 h2 show ?thesis
    by simp
qed

text \<open>
  C8: in an active session, when \<^verbatim>\<open>load\<close> or \<^verbatim>\<open>play\<close> raises for the track at position
  \<open>i\<close>, or \<^verbatim>\<open>get_busy\<close> raises while it plays, the thread does not exit: it prints the
  error, sets the position to \<open>(i + 1) mod n\<close>, waits 1000 ms and re-enters the loop
  body. The failed iteration has tried to load one track, once.
\<close>

theorem fault_skips_to_next_track:
  assumes "is_playing p" and "current_index p < length (current_playlist p)"
  shows "thread_steps [e0, Raises, e1, e2] Body p =
           (Body,
            p\<lparr>current_index := (current_index p + 1) mod length (current_playlist p)\<rparr>,
            [Load (current_playlist p ! current_index p), Print_playback_error,
             Wait_ms 1000])
       \<and> thread_steps [Raises, e1, e2] Busy p =
           (Body,
            p\<lparr>current_index := (current_index p + 1) mod length (current_playlist p)\<rparr>,
            [Print_playback_error, Wait_ms 1000])"
  using assms by (auto simp: next_index_def)

theorem fault_skips_to_next_track_witness:
  "is_playing jazz_playing
   \<and> current_index jazz_playing < length (current_playlist jazz_playing)
   \<and> thread_steps [Fine, Raises, Fine, Fine] Body jazz_playing
       = (Body, jazz_playing\<lparr>current_index := 0\<rparr>,
          [Load ''/media/usb/Jazz/c.mp3'', Print_playback_error, Wait_ms 1000])"
proof -
  have h1: "is_playing jazz_playing"
    by (simp add: jazz_playing_def)
  have h2: "current_index jazz_playing < length (current_playlist jazz_playing)"
    by (simp add: jazz_playing_def)
  have "(current_index jazz_playing + 1) mod length (current_playlist jazz_playing) = 0"
       "current_playlist jazz_playing ! current_index jazz_playing = ''/media/usb/Jazz/c.mp3''"
    by (simp_all add: jazz_playing_def)
  with fault_skips_to_next_track [OF h1 h2, of Fine Fine Fine] h1 h2 show ?thesis
    by simp
qed

subsection \<open>Threads, joins and sessions\<close>

lemma thread_step_exited: "c = Exited \<Longrightarrow> fst (thread_step ev c p) = Exited"
  by simp

lemma thread_step_handle:
  "playback_thread (fst (snd (thread_step ev c p))) = playback_thread p"
  by (cases c) (auto simp: Let_def)

lemma thread_run_handle:
  "playback_thread (mp (thread_run t ev w)) = playback_thread (mp w)"
  using thread_step_handle [of ev "threads w ! t" "mp w"]
  by (auto simp: thread_run_def split: prod.splits)

lemma thread_run_length: "length (threads (thread_run t ev w)) = length (threads w)"
  by (auto simp: thread_run_def split: prod.splits)

lemma thread_run_alive:
  assumes "is_alive (threads (thread_run t ev w)) u"
  shows "is_alive (threads w) u"
proof (cases "t < length (threads w)")
  case False
  with assms show ?thesis by (simp add: thread_run_def)
next
  case True
  obtain c' p' out where s: "thread_step ev (threads w ! t) (mp w) = (c', p', out)"
    by (cases "thread_step ev (threads w ! t) (mp w)") auto
  with True have th: "threads (thread_run t ev w) = (threads w)[t := c']"
    by (simp add: thread_run_def)
  show ?thesis
  proof (cases "u = t")
    case False
    with assms th show ?thesis by (simp add: is_alive_def)
  next
    case ut: True
    have "threads w ! t \<noteq> Exited"
    proof
      assume "threads w ! t = Exited"
      with s have "c' = Exited" by simp
      with assms th ut True show False by (simp add: is_alive_def)
    qed
    with True ut show ?thesis by (simp add: is_alive_def)
  qed
qed

lemma thread_runs_handle:
  "playback_thread (mp (thread_runs ts w)) = playback_thread (mp w)"
  unfolding thread_runs_def
  by (induction ts arbitrary: w) (auto simp: thread_run_handle)

lemma thread_runs_length: "length (threads (thread_runs ts w)) = length (threads w)"
  unfolding thread_runs_def
  by (induction ts arbitrary: w) (auto simp: thread_run_length)

lemma thread_runs_alive:
  "is_alive (threads (thread_runs ts w)) u \<Longrightarrow> is_alive (threads w) u"
  unfolding thread_runs_def
  by (induction ts arbitrary: w) (auto dest: thread_run_alive)

lemma stop_alive: "is_alive (threads (stop j w)) u \<Longrightarrow> is_alive (threads w) u"
  by (auto simp: stop_def Let_def is_alive_def nth_list_update split: option.splits if_splits)

lemma stop_handle: "playback_thread (mp (stop j w)) = playback_thread (mp w)"
  by (simp add: stop_def Let_def)

lemma stop_length: "length (threads (stop j w)) = length (threads w)"
  by (auto simp: stop_def Let_def split: option.splits)

lemma stop_joined_handle_dead:
  "playback_thread (mp w) = Some t \<Longrightarrow> \<not> is_alive (threads (stop True w)) t"
  by (auto simp: stop_def Let_def is_alive_def)

lemma stop_joined_none_alive:
  assumes "\<forall>t. is_alive (threads w) t \<longrightarrow> playback_thread (mp w) = Some t"
  shows "\<not> is_alive (threads (stop True w)) u"
proof
  assume a: "is_alive (threads (stop True w)) u"
  then have "is_alive (threads w) u" by (rule stop_alive)
  with assms have "playback_thread (mp w) = Some u" by blast
  then have "\<not> is_alive (threads (stop True w)) u" by (rule stop_joined_handle_dead)
  with a show False by contradiction
qed

lemma play_album_success:
  assumes "os_path_exists e (path_join mount album_name)"
      and "sorted_mp3_files e (path_join mount album_name) \<noteq> []"
  shows "fst (play_album e mount album_name sh w)"
    and "threads (snd (play_album e mount album_name sh w))
           = threads (stop (joined e) w) @ [Head]"
    and "playback_thread (mp (snd (play_album e mount album_name sh w)))
           = Some (length (threads w))"
    and "is_playing (mp (snd (play_album e mount album_name sh w)))"
  using assms by (simp_all add: play_album_def Let_def start_thread_def stop_length)

lemma play_album_cases:
  "play_album e mount album_name sh w = (False, w)
   \<or> (fst (play_album e mount album_name sh w)
      \<and> threads (snd (play_album e mount album_name sh w)) = threads (stop (joined e) w) @ [Head]
      \<and> playback_thread (mp (snd (play_album e mount album_name sh w)))
           = Some (length (threads w)))"
  by (simp add: play_album_def Let_def start_thread_def stop_length)

lemma play_album_inv:
  assumes "\<forall>t. is_alive (threads w) t \<longrightarrow> playback_thread (mp w) = Some t"
      and "joined e"
  shows "\<forall>t. is_alive (threads (snd (play_album e mount album_name sh w))) t
             \<longrightarrow> playback_thread (mp (snd (play_album e mount album_name sh w))) = Some t"
proof (intro allI impI)
  fix t
  assume a: "is_alive (threads (snd (play_album e mount album_name sh w))) t"
  from play_album_cases [of e mount album_name sh w]
  show "playback_thread (mp (snd (play_album e mount album_name sh w))) = Some t"
  proof
    assume "play_album e mount album_name sh w = (False, w)"
    with a assms(1) show ?thesis by simp
  next
    assume s: "fst (play_album e mount album_name sh w)
      \<and> threads (snd (play_album e mount album_name sh w)) = threads (stop (joined e) w) @ [Head]
      \<and> playback_thread (mp (snd (play_album e mount album_name sh w)))
           = Some (length (threads w))"
    have dead: "\<not> is_alive (threads (stop True w)) t"
      using assms(1) by (rule stop_joined_none_alive)
    from a s assms(2) have "t < length (threads (stop True w) @ [Head])"
      and "(threads (stop True w) @ [Head]) ! t \<noteq> Exited"
      by (simp_all add: is_alive_def)
    with dead have "t = length (threads w)"
      by (auto simp: is_alive_def nth_append stop_length split: if_splits)
    with s show ?thesis by simp
  qed
qed

lemma handle_new_tag_player:
  "music_player (handle_new_tag e n c) = music_player c
   \<or> (\<exists>a sh. music_player (handle_new_tag e n c)
                = snd (play_album e (usb_mount_path (config c)) a sh (music_player c)))"
proof -
  obtain album sh where g: "get_album_info (config c) n = (album, sh)"
    by (cases "get_album_info (config c) n") auto
  show ?thesis
  proof (cases "if truthy album then album else None")
    case None
    with g show ?thesis by (simp add: handle_new_tag_def log_activity_def)
  next
    case (Some a)
    obtain started w where
      pa: "play_album e (usb_mount_path (config c)) a sh (music_player c) = (started, w)"
      by (cases "play_album e (usb_mount_path (config c)) a sh (music_player c)") auto
    have "music_player (handle_new_tag e n c) = w"
      using g Some pa unfolding handle_new_tag_def log_activity_def
      by (cases started) simp_all
    with pa have "music_player (handle_new_tag e n c)
                = snd (play_album e (usb_mount_path (config c)) a sh (music_player c))"
      by simp
    then show ?thesis by blast
  qed
qed

lemma handle_tag_removed_player:
  "music_player (handle_tag_removed e c) = music_player c
   \<or> music_player (handle_tag_removed e c) = stop (joined e) (music_player c)"
  by (auto simp: handle_tag_removed_def log_activity_def Let_def
      split: prod.splits option.splits)

lemma tick_player:
  "music_player (tick e c) = music_player c
   \<or> music_player (tick e c) = stop (joined e) (music_player c)
   \<or> (\<exists>a sh. music_player (tick e c)
                = snd (play_album e (usb_mount_path (config c)) a sh (music_player c)))"
proof -
  let ?n = "fst (read_tag (reading e))"
  show ?thesis
  proof (cases "if truthy ?n \<and> ?n \<noteq> current_nfc_id c then ?n else None")
    case (Some t)
    then have "tick e c = handle_new_tag e t c"
      by (simp add: tick_def Let_def)
    with handle_new_tag_player [of e t c] show ?thesis by auto
  next
    case None
    then have "tick e c = handle_tag_removed e c \<or> tick e c = c"
      by (simp add: tick_def Let_def)
    with handle_tag_removed_player [of e c] show ?thesis by auto
  qed
qed

lemma stop_inv:
  assumes "\<forall>t. is_alive (threads w) t \<longrightarrow> playback_thread (mp w) = Some t"
  shows "\<forall>t. is_alive (threads (stop j w)) t \<longrightarrow> playback_thread (mp (stop j w)) = Some t"
  using assms by (auto simp: stop_handle dest: stop_alive)

lemma tick_inv:
  assumes "\<forall>t. is_alive (threads (music_player c)) t
               \<longrightarrow> playback_thread (mp (music_player c)) = Some t"
      and "joined e"
  shows "\<forall>t. is_alive (threads (music_player (tick e c))) t
               \<longrightarrow> playback_thread (mp (music_player (tick e c))) = Some t"
  using tick_player [of e c]
proof (elim disjE exE)
  assume "music_player (tick e c) = music_player c"
  with assms(1) show ?thesis by simp
next
  assume "music_player (tick e c) = stop (joined e) (music_player c)"
  with stop_inv [OF assms(1)] show ?thesis by simp
next
  fix a sh
  assume "music_player (tick e c)
            = snd (play_album e (usb_mount_path (config c)) a sh (music_player c))"
  with play_album_inv [OF assms] show ?thesis by simp
qed

lemma act_inv:
  assumes "\<forall>t. is_alive (threads (music_player c)) t
               \<longrightarrow> playback_thread (mp (music_player c)) = Some t"
      and "join_completes a"
  shows "\<forall>t. is_alive (threads (music_player (act a c))) t
               \<longrightarrow> playback_thread (mp (music_player (act a c))) = Some t"
proof (cases a)
  case (Tick e)
  with assms tick_inv [of c e] show ?thesis by simp
next
  case (Thread t ev)
  with assms(1) show ?thesis
    by (auto simp: thread_run_handle dest: thread_run_alive)
qed

lemma exec_inv:
  assumes "\<forall>t. is_alive (threads (music_player c)) t
               \<longrightarrow> playback_thread (mp (music_player c)) = Some t"
      and "list_all join_completes as"
  shows "\<forall>t. is_alive (threads (music_player (exec as c))) t
               \<longrightarrow> playback_thread (mp (music_player (exec as c))) = Some t"
  using assms
proof (induction as arbitrary: c)
  case Nil
  then show ?case by simp
next
  case (Cons a as)
  from Cons.prems have "\<forall>t. is_alive (threads (music_player (act a c))) t
               \<longrightarrow> playback_thread (mp (music_player (act a c))) = Some t"
    by (intro act_inv) simp_all
  with Cons.IH [of "act a c"] Cons.prems(2) show ?case by simp
qed

lemma alive_threads_le_one:
  assumes "\<forall>t. is_alive (threads w) t \<longrightarrow> playback_thread (mp w) = Some t"
  shows "length (alive_threads w) \<le> 1"
proof -
  have d: "distinct (alive_threads w)"
    by (simp add: alive_threads_def)
  have "set (alive_threads w) \<subseteq> (case playback_thread (mp w) of None \<Rightarrow> {} | Some t \<Rightarrow> {t})"
    using assms by (auto simp: alive_threads_def split: option.splits)
  moreover have "card (case playback_thread (mp w) of None \<Rightarrow> {} | Some t \<Rightarrow> {t}) \<le> 1"
    by (simp split: option.splits)
  moreover have "finite (case playback_thread (mp w) of None \<Rightarrow> {} | Some t \<Rightarrow> {t})"
    by (simp split: option.splits)
  ultimately have "card (set (alive_threads w)) \<le> 1"
    by (meson card_mono le_trans)
  with d show ?thesis by (simp add: distinct_card)
qed

text \<open>
  Why a join that sees the thread exit can be taken as one step of \<^verbatim>\<open>stop\<close>: once
  \<^verbatim>\<open>is_playing\<close> is false, a thread exits within five steps from wherever it stands,
  whatever pygame answers, and of the shared fields it writes at most
  \<^verbatim>\<open>current_index\<close>, which \<^verbatim>\<open>stop\<close> resets after the join.
\<close>

lemma stopped_thread_exits:
  assumes "\<not> is_playing p"
  shows "fst (thread_steps [e1, e2, e3, e4, e5] c p) = Exited
       \<and> (fst (snd (thread_steps [e1, e2, e3, e4, e5] c p)))\<lparr>current_index := 0\<rparr>
           = p\<lparr>current_index := 0\<rparr>"
  using assms by (cases c) (auto simp: Let_def)

lemma tick_111:
  "tick (usb_env (Returned (Some 111)) j) (init_controller usb_config)
     = \<lparr>config = usb_config,
        music_player = \<lparr>mp = jazz_playing\<lparr>current_index := 0\<rparr>, threads = [Head]\<rparr>,
        logger = [(''SYSTEM'', ''Music Player'', ''started''), (''111'', ''Jazz'', ''started'')],
        current_nfc_id = Some ''111'', ctl_is_playing = True\<rparr>"
proof -
  have r: "fst (read_tag (reading (usb_env (Returned (Some 111)) j))) = Some ''111''"
    by (simp add: usb_env_def read_tag_def str_111)
  have g: "get_album_info usb_config ''111'' = (Some ''Jazz'', False)"
    by (simp add: get_album_info_def usb_config_def)
  have m: "usb_mount_path usb_config = ''/media/usb''"
    by (simp add: usb_config_def)
  show ?thesis
    by (simp add: tick_def Let_def r truthy_def handle_new_tag_def g m log_activity_def
        play_jazz init_controller_def)
qed

lemma play_pop:
  "play_album (usb_env r j) ''/media/usb'' ''Pop'' True w
     = (True,
        start_thread ((stop j w)\<lparr>mp := (mp (stop j w))
          \<lparr>is_shuffled := True,
           current_playlist := [''/media/usb/Pop/2.mp3'', ''/media/usb/Pop/3.mp3'',
                                ''/media/usb/Pop/1.mp3''],
           current_index := 0, is_playing := True\<rparr>\<rparr>))"
proof -
  have "shuffle usb_draw [''/media/usb/Pop/1.mp3'', ''/media/usb/Pop/2.mp3'',
                          ''/media/usb/Pop/3.mp3'']
          = [''/media/usb/Pop/2.mp3'', ''/media/usb/Pop/3.mp3'', ''/media/usb/Pop/1.mp3'']"
    by (simp add: shuffle_def randbelow_def usb_draw_def numeral_2_eq_2)
  moreover have "random_draw (usb_env r j) = usb_draw" "joined (usb_env r j) = j"
    by (simp_all add: usb_env_def)
  ultimately show ?thesis
    by (simp add: play_album_def Let_def pop_sorted pop_exists)
qed

lemma tick_333_after_111:
  "tick (usb_env (Returned (Some 333)) j)
     \<lparr>config = usb_config, music_player = w, logger = l,
      current_nfc_id = Some ''111'', ctl_is_playing = True\<rparr>
   = \<lparr>config = usb_config,
      music_player = snd (play_album (usb_env (Returned (Some 333)) j) ''/media/usb'' ''Pop''
                            True w),
      logger = l @ [(''333'', ''Pop'', ''started_shuffled'')],
      current_nfc_id = Some ''333'', ctl_is_playing = True\<rparr>"
proof -
  have r: "fst (read_tag (reading (usb_env (Returned (Some 333)) j))) = Some ''333''"
    by (simp add: usb_env_def read_tag_def str_333)
  have g: "get_album_info usb_config ''333'' = (Some ''Pop'', True)"
    by (simp add: get_album_info_def usb_config_def)
  have m: "usb_mount_path usb_config = ''/media/usb''"
    by (simp add: usb_config_def)
  show ?thesis
    by (simp add: tick_def Let_def r truthy_def handle_new_tag_def g m log_activity_def
        play_pop)
qed

text \<open>
  C1, as the code has it: in every run of ticks and thread steps in which each join of
  \<^verbatim>\<open>stop\<close> sees its thread exit within the timeout, at most one run-loop thread is
  alive in every state reached, and it is the thread that \<^verbatim>\<open>play_album\<close> started
  last (the one in \<^verbatim>\<open>playback_thread\<close>).
\<close>

theorem one_thread_when_joins_complete:
  assumes "list_all join_completes as"
  shows "length (alive_threads (music_player (exec as (init_controller cfg)))) \<le> 1
       \<and> (\<forall>t. is_alive (threads (music_player (exec as (init_controller cfg)))) t
              \<longrightarrow> playback_thread (mp (music_player (exec as (init_controller cfg))))
                    = Some t)"
proof -
  have "\<forall>t. is_alive (threads (music_player (init_controller cfg))) t
           \<longrightarrow> playback_thread (mp (music_player (init_controller cfg))) = Some t"
    by (simp add: init_controller_def init_world_def is_alive_def)
  from exec_inv [OF this assms]
  have inv: "\<forall>t. is_alive (threads (music_player (exec as (init_controller cfg)))) t
              \<longrightarrow> playback_thread (mp (music_player (exec as (init_controller cfg))))
                    = Some t" .
  from inv have "length (alive_threads (music_player (exec as (init_controller cfg)))) \<le> 1"
    by (rule alive_threads_le_one)
  with inv show ?thesis by blast
qed

theorem one_thread_when_joins_complete_witness:
  "list_all join_completes calm_run
   \<and> length (alive_threads (music_player (exec calm_run (init_controller usb_config)))) \<le> 1
   \<and> threads (music_player (exec calm_run (init_controller usb_config))) = [Exited, Head]"
proof -
  have h: "list_all join_completes calm_run"
    by (simp add: calm_run_def usb_env_def)
  have t: "threads (music_player (exec calm_run (init_controller usb_config)))
             = [Exited, Head]"
    by (simp add: calm_run_def tick_111 tick_333_after_111 play_pop thread_run_def
      jazz_playing_def stop_def Let_def is_alive_def start_thread_def)
  from one_thread_when_joins_complete [OF h, of usb_config]
  have "length (alive_threads (music_player (exec calm_run (init_controller usb_config))))
          \<le> 1"
    by (rule conjunct1)
  with h t show ?thesis by blast
qed

text \<open>
  C1 as stated fails: \<^verbatim>\<open>join(timeout=2)\<close> can return while the thread is still in
  \<^verbatim>\<open>load\<close>. Then \<^verbatim>\<open>play_album\<close> sets \<^verbatim>\<open>is_playing\<close> again and starts a second
  thread; the first never sees the flag false, and both run-loops go on.
\<close>

theorem two_run_loops_after_join_timeout:
  "threads (music_player (exec timeout_run (init_controller usb_config))) = [Busy, Busy]
   \<and> is_playing (mp (music_player (exec timeout_run (init_controller usb_config))))
   \<and> alive_threads (music_player (exec timeout_run (init_controller usb_config))) = [0, 1]"
  by (simp add: timeout_run_def tick_111 tick_333_after_111 play_pop thread_run_def
      jazz_playing_def stop_def Let_def is_alive_def start_thread_def alive_threads_def
      upt_rec)

text \<open>
  C6, as the code has it: after \<^verbatim>\<open>play_album\<close> on an album with at least one track,
  whatever the new thread has done in between, a \<^verbatim>\<open>stop\<close> whose join sees the thread
  exit leaves \<^verbatim>\<open>is_playing\<close> and \<^verbatim>\<open>is_shuffled\<close> false, the playlist empty, the
  position 0, and the thread that was started not alive; when no run-loop was alive
  before the start, none is alive afterwards.
\<close>

theorem start_then_stop_idle:
  assumes "os_path_exists e (path_join mount album_name)"
      and "sorted_mp3_files e (path_join mount album_name) \<noteq> []"
  shows "mp (stop True (thread_runs ts (snd (play_album e mount album_name sh w))))
           = \<lparr>current_playlist = [], current_index = 0, is_playing = False,
              is_shuffled = False, playback_thread = Some (length (threads w))\<rparr>
       \<and> \<not> is_alive (threads (stop True (thread_runs ts
                (snd (play_album e mount album_name sh w))))) (length (threads w))
       \<and> ((\<forall>t. \<not> is_alive (threads w) t) \<longrightarrow>
            alive_threads (stop True (thread_runs ts
                (snd (play_album e mount album_name sh w)))) = [])"
proof -
  let ?w1 = "snd (play_album e mount album_name sh w)"
  let ?w2 = "thread_runs ts ?w1"
  have h1: "playback_thread (mp ?w1) = Some (length (threads w))"
    using assms by (rule play_album_success(3))
  then have h2: "playback_thread (mp ?w2) = Some (length (threads w))"
    by (simp add: thread_runs_handle)
  have fields: "mp (stop True ?w2)
           = \<lparr>current_playlist = [], current_index = 0, is_playing = False,
              is_shuffled = False, playback_thread = Some (length (threads w))\<rparr>"
    using h2 by (simp add: stop_def Let_def)
  have dead: "\<not> is_alive (threads (stop True ?w2)) (length (threads w))"
    using h2 by (rule stop_joined_handle_dead)
  have none: "alive_threads (stop True ?w2) = []" if idle: "\<forall>t. \<not> is_alive (threads w) t"
  proof -
    have "\<not> is_alive (threads (stop True ?w2)) u" for u
    proof
      assume a: "is_alive (threads (stop True ?w2)) u"
      then have "is_alive (threads ?w2) u" by (rule stop_alive)
      then have "is_alive (threads ?w1) u" by (rule thread_runs_alive)
      then have u: "u < length (threads (stop (joined e) w) @ [Head])"
        and "(threads (stop (joined e) w) @ [Head]) ! u \<noteq> Exited"
        using play_album_success(2) [OF assms, of sh w] by (simp_all add: is_alive_def)
      moreover have "\<not> is_alive (threads (stop (joined e) w)) u"
        using idle stop_alive by blast
      ultimately have "u = length (threads w)"
        by (auto simp: is_alive_def nth_append stop_length split: if_splits)
      with a dead show False by simp
    qed
    then show ?thesis by (simp add: alive_threads_def)
  qed
  from fields dead none show ?thesis by blast
qed

theorem start_then_stop_idle_witness:
  "os_path_exists (usb_env (Returned (Some 111)) True) (path_join ''/media/usb'' ''Jazz'')
   \<and> sorted_mp3_files (usb_env (Returned (Some 111)) True) (path_join ''/media/usb'' ''Jazz'')
        \<noteq> []
   \<and> stop True (thread_runs [(0, Fine), (0, Fine)]
        (snd (play_album (usb_env (Returned (Some 111)) True) ''/media/usb'' ''Jazz'' False
                init_world)))
       = \<lparr>mp = init_player\<lparr>playback_thread := Some 0\<rparr>, threads = [Exited]\<rparr>"
proof -
  have h1: "os_path_exists (usb_env (Returned (Some 111)) True)
              (path_join ''/media/usb'' ''Jazz'')"
    by (rule jazz_exists)
  have h2: "sorted_mp3_files (usb_env (Returned (Some 111)) True)
              (path_join ''/media/usb'' ''Jazz'') \<noteq> []"
    by (simp add: jazz_sorted)
  let ?w = "stop True (thread_runs [(0, Fine), (0, Fine)]
        (snd (play_album (usb_env (Returned (Some 111)) True) ''/media/usb'' ''Jazz'' False
                init_world)))"
  have len: "threads ?w = [Exited]"
    by (simp add: play_jazz thread_runs_def thread_run_def jazz_playing_def stop_def Let_def
        is_alive_def)
  from start_then_stop_idle [OF h1 h2, of "[(0, Fine), (0, Fine)]" False init_world]
  have "mp ?w = \<lparr>current_playlist = [], current_index = 0, is_playing = False,
              is_shuffled = False, playback_thread = Some (length (threads init_world))\<rparr>"
    by blast
  then have "mp ?w = init_player\<lparr>playback_thread := Some 0\<rparr>"
    by (simp add: init_player_def init_world_def)
  with len have "?w = \<lparr>mp = init_player\<lparr>playback_thread := Some 0\<rparr>, threads = [Exited]\<rparr>"
    by (cases ?w) simp
  with h1 h2 show ?thesis by blast
qed

text \<open>
  C6 as stated fails: when the thread is held in \<^verbatim>\<open>load\<close> for longer than the join
  waits, \<^verbatim>\<open>stop\<close> returns with the fields reset and the thread still alive.
\<close>

theorem thread_alive_after_join_timeout:
  "fst (play_album (usb_env (Returned (Some 111)) True) ''/media/usb'' ''Jazz'' False init_world)
   \<and> stop False (thread_runs [(0, Fine), (0, Fine)]
        (snd (play_album (usb_env (Returned (Some 111)) True) ''/media/usb'' ''Jazz'' False
                init_world)))
       = \<lparr>mp = init_player\<lparr>playback_thread := Some 0\<rparr>,
          threads = [Loading ''/media/usb/Jazz/a.mp3'']\<rparr>
   \<and> is_alive [Loading ''/media/usb/Jazz/a.mp3''] 0"
  by (simp add: play_jazz thread_runs_def thread_run_def stop_def Let_def is_alive_def
      jazz_playing_def init_player_def)

end
